theory Spec2Isabelle
  imports Main
begin

section \<open>Data model\<close>

text \<open>
  The interface \<^verbatim>\<open>Range\<close> has two numeric fields; positions are document
  coordinates, modelled as integers. \<^verbatim>\<open>ValidationInput\<close> adds the text of
  the run; any further payload lives in the record's extension slot, so that
  \<^verbatim>\<open>T extends ValidationInput\<close> is \<open>'a ValidationInput_scheme\<close>.
\<close>

record Range =
  "from" :: int
  to :: int

record ValidationInput = Range +
  str :: string

text \<open>
  Of a \<^verbatim>\<open>Transaction\<close> the code reads \<^verbatim>\<open>tr.time\<close> and
  \<^verbatim>\<open>tr.mapping.map(pos)\<close> only.
\<close>

record Transaction =
  time :: int
  mapping :: "int \<Rightarrow> int"

section \<open>Array helpers of the host language\<close>

text \<open>\<^verbatim>\<open>Array.prototype.findIndex\<close>: \<open>None\<close> stands for \<^verbatim>\<open>-1\<close>.\<close>

fun findIndex :: "('a \<Rightarrow> bool) \<Rightarrow> 'a list \<Rightarrow> nat option" where
  "findIndex P [] = None"
| "findIndex P (x # xs) = (if P x then Some 0 else map_option Suc (findIndex P xs))"

text \<open>
  \<^verbatim>\<open>String.prototype.slice(start, end)\<close>: a negative index counts from the
  end of the string, both indices are clipped to the string, and an empty span
  gives the empty string.
\<close>

definition slice :: "string \<Rightarrow> int \<Rightarrow> int \<Rightarrow> string" where
  "slice s intStart intEnd =
     (let len = int (length s);
          from_k = (if intStart < 0 then max (len + intStart) 0 else min intStart len);
          to_k = (if intEnd < 0 then max (len + intEnd) 0 else min intEnd len)
      in take (nat (max (to_k - from_k) 0)) (drop (nat from_k) s))"

text \<open>
  lodash \<^verbatim>\<open>compact\<close> drops the falsy entries; among range objects and
  \<^verbatim>\<open>undefined\<close> only the latter is falsy.
\<close>

fun compact :: "'a option list \<Rightarrow> 'a list" where
  "compact [] = []"
| "compact (None # xs) = compact xs"
| "compact (Some x # xs) = x # compact xs"

section \<open>Range algebra\<close>

text \<open>The predicate handed to \<^verbatim>\<open>findIndex\<close> in \<^verbatim>\<open>findOverlappingRangeIndex\<close>.\<close>

definition overlapsRange :: "Range \<Rightarrow> Range \<Rightarrow> bool" where
  "overlapsRange rng localRange \<longleftrightarrow>
     (from localRange \<le> from rng \<and> to localRange \<ge> from rng) \<or>
     (to localRange \<ge> to rng \<and> from localRange \<le> to rng) \<or>
     (from localRange \<ge> from rng \<and> to localRange \<le> to rng)"

definition findOverlappingRangeIndex :: "Range \<Rightarrow> Range list \<Rightarrow> nat option" where
  "findOverlappingRangeIndex rng ranges = findIndex (overlapsRange rng) ranges"

definition mergeRange :: "Range \<Rightarrow> Range \<Rightarrow> Range" where
  "mergeRange range1 range2 =
     \<lparr>from = (if from range1 < from range2 then from range1 else from range2),
      to = (if to range1 > to range2 then to range1 else to range2)\<rparr>"

text \<open>The reducer of \<^verbatim>\<open>mergeRanges\<close>; \<^verbatim>\<open>splice(index, 1, x)\<close> on the copy is a list update.\<close>

definition mergeStep :: "Range list \<Rightarrow> Range \<Rightarrow> Range list" where
  "mergeStep acc rng =
     (case findOverlappingRangeIndex rng acc of
        None \<Rightarrow> acc @ [rng]
      | Some index \<Rightarrow> acc[index := mergeRange rng (acc ! index)])"

definition mergeRanges :: "Range list \<Rightarrow> Range list" where
  "mergeRanges ranges = foldl mergeStep [] ranges"

text \<open>
  \<^verbatim>\<open>diffRanges\<close> calls itself on the right remainder of a split range. Nothing
  in the code bounds that recursion, so the model carries fuel: the number of
  nested calls allowed. \<open>None\<close> means the fuel ran out.
\<close>

fun diffRanges :: "nat \<Rightarrow> Range list \<Rightarrow> Range list \<Rightarrow> Range list option" where
  "diffRanges 0 firstRanges secondRanges = None"
| "diffRanges (Suc n) firstRanges secondRanges =
     (let firstRangesMerged = mergeRanges firstRanges;
          secondRangesMerged = mergeRanges secondRanges
      in foldl
           (\<lambda>acc_opt rng.
              case acc_opt of
                None \<Rightarrow> None
              | Some acc \<Rightarrow>
                  (case findOverlappingRangeIndex rng secondRangesMerged of
                     None \<Rightarrow> Some (acc @ [rng])
                   | Some overlap \<Rightarrow>
                       (let overlappingRange = secondRangesMerged ! overlap;
                            firstShortenedRange =
                              \<lparr>from = from rng, to = from (secondRangesMerged ! overlap)\<rparr>
                        in if to overlappingRange \<ge> to rng
                           then (if from firstShortenedRange = to firstShortenedRange
                                 then Some acc
                                 else Some (acc @ [firstShortenedRange]))
                           else (case diffRanges n
                                        [\<lparr>from = to overlappingRange + 1, to = to rng\<rparr>]
                                        secondRangesMerged of
                                   None \<Rightarrow> None
                                 | Some rest \<Rightarrow> Some (acc @ [firstShortenedRange] @ rest)))))
           (Some []) firstRangesMerged)"

section \<open>Validation inputs\<close>

definition validationInputToRange :: "'a ValidationInput_scheme \<Rightarrow> Range" where
  "validationInputToRange vi = \<lparr>from = from vi, to = from vi + int (length (str vi))\<rparr>"

text \<open>
  The reducer of \<^verbatim>\<open>getValRangesFromRange\<close>. \<^verbatim>\<open>Object.assign({}, vi, {from, to, str})\<close>
  is a fresh copy of \<open>vi\<close> with three fields replaced; the empty string is the
  only falsy string.
\<close>

definition valRangeStep ::
  "Range \<Rightarrow> 'a ValidationInput_scheme list \<Rightarrow> 'a ValidationInput_scheme
     \<Rightarrow> 'a ValidationInput_scheme list" where
  "valRangeStep rng acc vi =
     (if from rng \<ge> from vi \<and> from rng \<le> from vi + int (length (str vi))
      then (let from_l = from rng - from vi;
                to_l = from rng - from vi + (to rng - from rng);
                str_l = slice (str vi) (if from_l > 0 then from_l - 1 else 0) to_l
            in if str_l \<noteq> []
               then acc @ [vi\<lparr>from := from rng, to := to rng, str := str_l\<rparr>]
               else acc)
      else acc)"

definition getValRangesFromRange ::
  "Range \<Rightarrow> 'a ValidationInput_scheme list \<Rightarrow> 'a ValidationInput_scheme list" where
  "getValRangesFromRange rng valRanges = foldl (valRangeStep rng) [] valRanges"

definition diffValidationInputs ::
  "nat \<Rightarrow> 'a ValidationInput_scheme list \<Rightarrow> 'b ValidationInput_scheme list
     \<Rightarrow> 'a ValidationInput_scheme list option" where
  "diffValidationInputs n firstValInputs secondValInputs =
     map_option
       (\<lambda>ranges. concat (map (\<lambda>rng. getValRangesFromRange rng firstValInputs) ranges))
       (diffRanges n (map validationInputToRange firstValInputs)
                     (map validationInputToRange secondValInputs))"

section \<open>Mapping ranges through transactions\<close>

text \<open>
  \<^verbatim>\<open>mapRangeThroughTransactions\<close> hands each range object to
  \<^verbatim>\<open>Object.assign\<close> as the target, so the objects are kept in a store and
  the array holds their addresses. The callback returns the address of the
  range, or \<open>None\<close> for \<^verbatim>\<open>undefined\<close>, together with the store it leaves.
\<close>

type_synonym ref = nat
type_synonym 'a store = "ref \<Rightarrow> 'a Range_scheme"

definition mapRangeCallback ::
  "int \<Rightarrow> Transaction list \<Rightarrow> 'a store \<Rightarrow> ref \<Rightarrow> ref option \<times> 'a store" where
  "mapRangeCallback time_v trs h rng =
     (let initialTransactionIndex = findIndex (\<lambda>tr. time tr = time_v) trs
      in if length trs = 1 then (Some rng, h)
         else (case initialTransactionIndex of
                 None \<Rightarrow> (None, h)
               | Some i \<Rightarrow>
                   (let res = foldl (\<lambda>acc tr. \<lparr>from = mapping tr (from acc),
                                                to = mapping tr (to acc)\<rparr>)
                                    \<lparr>from = from (h rng), to = to (h rng)\<rparr>
                                    (drop i trs)
                    in (Some rng,
                        h(rng := (h rng)\<lparr>from := from res, to := to res\<rparr>)))))"

text \<open>\<^verbatim>\<open>ranges.map(callback)\<close>, left to right, each call seeing the store the last one left.\<close>

fun mapWithStore ::
  "('s \<Rightarrow> 'x \<Rightarrow> 'y \<times> 's) \<Rightarrow> 's \<Rightarrow> 'x list \<Rightarrow> 'y list \<times> 's" where
  "mapWithStore f h [] = ([], h)"
| "mapWithStore f h (x # xs) =
     (case f h x of (y, h1) \<Rightarrow>
        (case mapWithStore f h1 xs of (ys, h2) \<Rightarrow> (y # ys, h2)))"

text \<open>
  A store for the worked examples below: every address holds the range
  \<^verbatim>\<open>{from: 1, to: 2}\<close>.
\<close>

definition sampleStore :: "unit store" where
  "sampleStore a = \<lparr>from = 1, to = 2\<rparr>"

definition mapRangeThroughTransactions ::
  "ref list \<Rightarrow> int \<Rightarrow> Transaction list \<Rightarrow> 'a store \<Rightarrow> ref list \<times> 'a store" where
  "mapRangeThroughTransactions ranges time_v trs h =
     (case mapWithStore (mapRangeCallback time_v trs) h ranges of
        (res, h') \<Rightarrow> (compact res, h'))"

section \<open>Facts about the helpers\<close>

lemmas range_defs = findOverlappingRangeIndex_def overlapsRange_def mergeRange_def
  mergeStep_def mergeRanges_def

lemma findIndex_None: "findIndex P xs = None \<longleftrightarrow> (\<forall>x\<in>set xs. \<not> P x)"
  by (induction xs) auto

lemma findIndex_Some: "findIndex P xs = Some i \<Longrightarrow> i < length xs \<and> P (xs ! i)"
  by (induction xs arbitrary: i) (auto split: if_splits)

lemma findIndex_least: "findIndex P xs = Some i \<Longrightarrow> j < i \<Longrightarrow> \<not> P (xs ! j)"
proof (induction xs arbitrary: i j)
  case Nil
  then show ?case by simp
next
  case (Cons x xs)
  show ?case
  proof (cases "P x")
    case True
    with Cons.prems show ?thesis by simp
  next
    case False
    with Cons.prems obtain i' where i': "findIndex P xs = Some i'" "i = Suc i'"
      by auto
    show ?thesis
    proof (cases j)
      case 0
      with False show ?thesis by simp
    next
      case (Suc j')
      with Cons.prems(2) i'(2) have "j' < i'" by simp
      with Cons.IH [OF i'(1)] Suc show ?thesis by simp
    qed
  qed
qed

lemma findOverlap_None:
  "findOverlappingRangeIndex r rs = None \<longleftrightarrow> (\<forall>l\<in>set rs. \<not> overlapsRange r l)"
  by (simp add: findOverlappingRangeIndex_def findIndex_None)

lemma findOverlap_Some:
  "findOverlappingRangeIndex r rs = Some i \<Longrightarrow> i < length rs \<and> overlapsRange r (rs ! i)"
  by (simp add: findOverlappingRangeIndex_def findIndex_Some)

lemma overlapsRange_refl: "overlapsRange r r"
  by (simp add: overlapsRange_def)

lemma compact_Some: "compact (map Some xs) = xs"
  by (induction xs) auto

lemma compact_None: "compact (map (\<lambda>_. None) xs) = []"
  by (induction xs) auto

lemma length_compact: "length (compact xs) = length xs - length (filter (\<lambda>x. x = None) xs)"
proof (induction xs rule: compact.induct)
  case (3 x xs)
  have "length (filter (\<lambda>x. x = None) xs) \<le> length xs" by simp
  with 3 show ?case by (simp add: Suc_diff_le)
qed simp_all

text \<open>A callback that leaves the store alone makes \<open>mapWithStore\<close> a plain map.\<close>

lemma mapWithStore_const:
  "(\<And>h x. f h x = (g x, h)) \<Longrightarrow> mapWithStore f h xs = (map g xs, h)"
  by (induction xs) auto

lemma length_mapWithStore: "length (fst (mapWithStore f s xs)) = length xs"
proof (induction xs arbitrary: s)
  case (Cons a xs)
  obtain y s1 where f: "f s a = (y, s1)" by (cases "f s a")
  obtain ys s2 where m: "mapWithStore f s1 xs = (ys, s2)" by (cases "mapWithStore f s1 xs")
  from Cons [of s1] m have "length ys = length xs" by simp
  with f m show ?case by simp
qed simp

text \<open>A fold whose accumulator may fail: once failed it stays failed.\<close>

lemma foldl_option_None:
  "foldl (\<lambda>a r. case a of None \<Rightarrow> None | Some acc \<Rightarrow> F acc r) None rs = None"
  by (induction rs) simp_all

lemma foldl_option_total:
  assumes "\<And>acc r. r \<in> set rs \<Longrightarrow> F acc r \<noteq> None"
  shows "foldl (\<lambda>a r. case a of None \<Rightarrow> None | Some acc \<Rightarrow> F acc r) (Some acc0) rs \<noteq> None"
  using assms
proof (induction rs arbitrary: acc0)
  case Nil
  then show ?case by simp
next
  case (Cons r rs)
  from Cons.prems [of r acc0] obtain y where y: "F acc0 r = Some y" by auto
  have "foldl (\<lambda>a r. case a of None \<Rightarrow> None | Some acc \<Rightarrow> F acc r) (Some y) rs \<noteq> None"
    by (rule Cons.IH) (simp add: Cons.prems)
  with y show ?case by simp
qed

lemma foldl_option_mono:
  assumes "foldl (\<lambda>a r. case a of None \<Rightarrow> None | Some acc \<Rightarrow> F acc r) (Some acc0) rs = Some x"
    and "\<And>acc r y. F acc r = Some y \<Longrightarrow> G acc r = Some y"
  shows "foldl (\<lambda>a r. case a of None \<Rightarrow> None | Some acc \<Rightarrow> G acc r) (Some acc0) rs = Some x"
  using assms(1)
proof (induction rs arbitrary: acc0)
  case Nil
  then show ?case by simp
next
  case (Cons r rs)
  show ?case
  proof (cases "F acc0 r")
    case None
    with Cons.prems show ?thesis by (simp add: foldl_option_None)
  next
    case (Some y)
    with Cons.prems
    have "foldl (\<lambda>a r. case a of None \<Rightarrow> None | Some acc \<Rightarrow> F acc r) (Some y) rs = Some x"
      by simp
    then have "foldl (\<lambda>a r. case a of None \<Rightarrow> None | Some acc \<Rightarrow> G acc r) (Some y) rs = Some x"
      by (rule Cons.IH)
    with assms(2) [OF Some] show ?thesis by simp
  qed
qed

section \<open>Merging\<close>

lemma mergeRanges_single: "mergeRanges [r] = [r]"
  by (simp add: mergeRanges_def mergeStep_def findOverlappingRangeIndex_def)

text \<open>
  What \<open>mergeStep\<close> leaves in the accumulator: an old range, the incoming range, or
  the merge of the incoming range with an old one that it overlaps.
\<close>

lemma mergeStep_cases:
  assumes "m \<in> set (mergeStep acc r)"
  shows "m \<in> set acc \<or> m = r \<or>
         (\<exists>l\<in>set acc. overlapsRange r l \<and> m = mergeRange r l)"
proof (cases "findOverlappingRangeIndex r acc")
  case None
  with assms have "m \<in> set (acc @ [r])" by (simp add: mergeStep_def)
  then show ?thesis by auto
next
  case (Some i)
  from findOverlap_Some [OF Some] have i: "i < length acc" "overlapsRange r (acc ! i)"
    by simp_all
  from assms Some have "m \<in> set (acc[i := mergeRange r (acc ! i)])"
    by (simp add: mergeStep_def)
  with set_update_subset_insert [of acc i "mergeRange r (acc ! i)"]
  have "m = mergeRange r (acc ! i) \<or> m \<in> set acc" by auto
  moreover from i have "acc ! i \<in> set acc" by simp
  ultimately show ?thesis using i(2) by blast
qed

text \<open>
  Merging keeps ranges ordered (\<open>from \<le> to\<close>).
\<close>

lemma mergeRange_ordered: "from l \<le> to l \<Longrightarrow> from (mergeRange r l) \<le> to (mergeRange r l)"
  by (simp add: mergeRange_def)

lemma foldl_mergeStep_ordered:
  assumes "\<forall>m\<in>set acc. from m \<le> to m" "\<forall>r\<in>set rs. from r \<le> to r"
  shows "\<forall>m\<in>set (foldl mergeStep acc rs). from m \<le> to m"
  using assms
proof (induction rs arbitrary: acc)
  case Nil
  then show ?case by simp
next
  case (Cons r rs)
  have "\<forall>m\<in>set (mergeStep acc r). from m \<le> to m"
  proof
    fix m assume "m \<in> set (mergeStep acc r)"
    then consider "m \<in> set acc" | "m = r"
      | l where "l \<in> set acc" "overlapsRange r l" "m = mergeRange r l"
      using mergeStep_cases by blast
    then show "from m \<le> to m"
    proof cases
      case 1 with Cons.prems show ?thesis by blast
    next
      case 2 with Cons.prems show ?thesis by simp
    next
      case 3 with Cons.prems show ?thesis by (simp add: mergeRange_ordered)
    qed
  qed
  with Cons show ?case by simp
qed

lemma mergeRanges_ordered:
  "\<forall>r\<in>set rs. from r \<le> to r \<Longrightarrow> \<forall>m\<in>set (mergeRanges rs). from m \<le> to m"
  using foldl_mergeStep_ordered [of "[]" rs] by (simp add: mergeRanges_def)

text \<open>
  C2 (\<^verbatim>\<open>mergeRanges\<close> is idempotent) does not hold of the code. The third range
  below grows the first accumulated range until it reaches the second one, which
  the fold never looks at again; a second pass then merges the two.
\<close>

theorem mergeRanges_second_pass_differs:
  "mergeRanges [\<lparr>from = 0, to = 2\<rparr>, \<lparr>from = 5, to = 7\<rparr>, \<lparr>from = 1, to = 6\<rparr>]
     = [\<lparr>from = 0, to = 6\<rparr>, \<lparr>from = 5, to = 7\<rparr>] \<and>
   mergeRanges (mergeRanges [\<lparr>from = 0, to = 2\<rparr>, \<lparr>from = 5, to = 7\<rparr>, \<lparr>from = 1, to = 6\<rparr>])
     = [\<lparr>from = 0, to = 7\<rparr>]"
  by (simp add: range_defs)

text \<open>
  C3 (no two ranges of the output of \<^verbatim>\<open>mergeRanges\<close> overlap) does not hold of
  the code: on the same input the two ranges of the output overlap each other,
  whichever of them is handed to \<^verbatim>\<open>findOverlappingRangeIndex\<close>.
\<close>

theorem mergeRanges_output_overlaps:
  "mergeRanges [\<lparr>from = 0, to = 2\<rparr>, \<lparr>from = 5, to = 7\<rparr>, \<lparr>from = 1, to = 6\<rparr>] ! 0
     = \<lparr>from = 0, to = 6\<rparr> \<and>
   mergeRanges [\<lparr>from = 0, to = 2\<rparr>, \<lparr>from = 5, to = 7\<rparr>, \<lparr>from = 1, to = 6\<rparr>] ! 1
     = \<lparr>from = 5, to = 7\<rparr> \<and>
   findOverlappingRangeIndex \<lparr>from = 5, to = 7\<rparr> [\<lparr>from = 0, to = 6\<rparr>] = Some 0 \<and>
   findOverlappingRangeIndex \<lparr>from = 0, to = 6\<rparr> [\<lparr>from = 5, to = 7\<rparr>] = Some 0"
  by (simp add: range_defs)

text \<open>
  A list in which no range overlaps an earlier one is left as it is by
  \<^verbatim>\<open>mergeRanges\<close>: the defect shown above needs a merge to happen.
\<close>

lemma foldl_mergeStep_append:
  assumes "sorted_wrt (\<lambda>l r. \<not> overlapsRange r l) rs"
    and "\<forall>r\<in>set rs. \<forall>l\<in>set acc. \<not> overlapsRange r l"
  shows "foldl mergeStep acc rs = acc @ rs"
  using assms
proof (induction rs arbitrary: acc)
  case Nil
  then show ?case by simp
next
  case (Cons r rs)
  from Cons.prems(2) have "findOverlappingRangeIndex r acc = None"
    by (simp add: findOverlap_None)
  then have step: "mergeStep acc r = acc @ [r]" by (simp add: mergeStep_def)
  have "foldl mergeStep (acc @ [r]) rs = (acc @ [r]) @ rs"
    using Cons.prems by (intro Cons.IH) auto
  with step show ?case by simp
qed

lemma mergeRanges_apart_fixed:
  "sorted_wrt (\<lambda>l r. \<not> overlapsRange r l) X \<Longrightarrow> mergeRanges X = X"
  using foldl_mergeStep_append [of X "[]"] by (simp add: mergeRanges_def)

section \<open>Diffing\<close>

subsection \<open>Fuel\<close>

text \<open>
  More fuel never changes a result.
\<close>

lemma diffRanges_fuel_Suc:
  "diffRanges n A B = Some x \<Longrightarrow> diffRanges (Suc n) A B = Some x"
proof (induction n arbitrary: A B x)
  case 0
  then show ?case by simp
next
  case (Suc n)
  from Suc.prems show ?case
    apply (subst diffRanges.simps(2))
    apply (subst (asm) diffRanges.simps(2))
    unfolding Let_def
    apply (erule foldl_option_mono)
    apply (auto split: option.splits if_splits dest: Suc.IH)
    done
qed

lemma diffRanges_fuel_mono:
  "diffRanges n A B = Some x \<Longrightarrow> diffRanges (n + k) A B = Some x"
  by (induction k) (simp_all add: diffRanges_fuel_Suc del: diffRanges.simps)

text \<open>
  Against a second list of ordered ranges, the right remainder of a split is
  strictly shorter than the range that was split.
\<close>

lemma split_advances:
  assumes "overlapsRange r l" "from l \<le> to l" "\<not> to r \<le> to l"
  shows "from r \<le> to l"
  using assms by (auto simp: overlapsRange_def)

lemma diffRanges_single_returns:
  assumes "\<forall>b\<in>set S. from b \<le> to b" "nat (to r - from r) < n"
  shows "diffRanges n [r] S \<noteq> None"
  using assms
proof (induction n arbitrary: r S)
  case 0
  then show ?case by simp
next
  case (Suc n)
  let ?S = "mergeRanges S"
  have ord: "\<forall>b\<in>set ?S. from b \<le> to b"
    using Suc.prems(1) by (rule mergeRanges_ordered)
  show ?case
  proof (cases "findOverlappingRangeIndex r ?S")
    case None
    then show ?thesis by (simp add: mergeRanges_single)
  next
    case (Some i)
    from findOverlap_Some [OF Some] have i: "i < length ?S" "overlapsRange r (?S ! i)"
      by simp_all
    show ?thesis
    proof (cases "to r \<le> to (?S ! i)")
      case True
      with Some show ?thesis by (simp add: mergeRanges_single Let_def)
    next
      case False
      from i ord have "from (?S ! i) \<le> to (?S ! i)" by simp
      with i(2) False have "from r \<le> to (?S ! i)" using split_advances by blast
      with False Suc.prems(2)
      have "nat (to \<lparr>from = to (?S ! i) + 1, to = to r\<rparr>
                 - from \<lparr>from = to (?S ! i) + 1, to = to r\<rparr>) < n"
        by simp
      with ord have "diffRanges n [\<lparr>from = to (?S ! i) + 1, to = to r\<rparr>] ?S \<noteq> None"
        by (rule Suc.IH)
      with Some False show ?thesis by (auto simp: mergeRanges_single Let_def)
    qed
  qed
qed

text \<open>
  Against a second list of ordered ranges \<^verbatim>\<open>diffRanges\<close> returns, whatever the first
  list is.
\<close>

lemma diffRanges_returns:
  assumes "\<forall>b\<in>set B. from b \<le> to b"
  shows "\<exists>n. diffRanges n A B \<noteq> None"
proof -
  let ?A = "mergeRanges A" and ?S = "mergeRanges B"
  define n where "n = Suc (sum_list (map (\<lambda>r. nat (to r - from r)) ?A))"
  have ord: "\<forall>b\<in>set ?S. from b \<le> to b"
    using assms by (rule mergeRanges_ordered)
  have small: "nat (to r - from r) < n" if "r \<in> set ?A" for r
    using that member_le_sum_list [of "nat (to r - from r)" "map (\<lambda>r. nat (to r - from r)) ?A"]
    by (auto simp: n_def)
  have step: "(case findOverlappingRangeIndex r ?S of
                 None \<Rightarrow> Some (acc @ [r])
               | Some overlap \<Rightarrow>
                   if to (?S ! overlap) \<ge> to r
                   then (if from \<lparr>from = from r, to = from (?S ! overlap)\<rparr>
                            = to \<lparr>from = from r, to = from (?S ! overlap)\<rparr>
                         then Some acc
                         else Some (acc @ [\<lparr>from = from r, to = from (?S ! overlap)\<rparr>]))
                   else (case diffRanges n [\<lparr>from = to (?S ! overlap) + 1, to = to r\<rparr>] ?S of
                           None \<Rightarrow> None
                         | Some rest \<Rightarrow>
                             Some (acc @ [\<lparr>from = from r, to = from (?S ! overlap)\<rparr>] @ rest)))
               \<noteq> None"
    if "r \<in> set ?A" for acc r
  proof (cases "findOverlappingRangeIndex r ?S")
    case None
    then show ?thesis by simp
  next
    case (Some i)
    from findOverlap_Some [OF Some] have i: "i < length ?S" "overlapsRange r (?S ! i)"
      by simp_all
    show ?thesis
    proof (cases "to r \<le> to (?S ! i)")
      case True
      with Some show ?thesis by (simp add: Let_def)
    next
      case False
      from i ord have "from (?S ! i) \<le> to (?S ! i)" by simp
      with i(2) False have "from r \<le> to (?S ! i)" using split_advances by blast
      with False small [OF that]
      have "nat (to \<lparr>from = to (?S ! i) + 1, to = to r\<rparr>
                 - from \<lparr>from = to (?S ! i) + 1, to = to r\<rparr>) < n"
        by simp
      with ord have "diffRanges n [\<lparr>from = to (?S ! i) + 1, to = to r\<rparr>] ?S \<noteq> None"
        by (rule diffRanges_single_returns)
      with Some False show ?thesis by (auto simp: Let_def)
    qed
  qed
  have "diffRanges (Suc n) A B \<noteq> None"
    unfolding diffRanges.simps Let_def
    by (rule foldl_option_total) (rule step)
  then show ?thesis ..
qed

text \<open>
  The recursion of \<^verbatim>\<open>diffRanges\<close> does not end on every input: against an
  inverted range in the second list the right remainder never gets shorter.
\<close>

lemma diffRanges_loops_aux: "diffRanges n [\<lparr>from = - 4, to = 10\<rparr>] [\<lparr>from = 5, to = - 5\<rparr>] = None"
  by (induction n) (simp_all add: range_defs)

lemma diffRanges_loops: "diffRanges n [\<lparr>from = 0, to = 10\<rparr>] [\<lparr>from = 5, to = - 5\<rparr>] = None"
proof (cases n)
  case 0
  then show ?thesis by simp
next
  case (Suc m)
  have "mergeRanges [\<lparr>from = 5, to = - 5\<rparr>] = [\<lparr>from = 5, to = - 5\<rparr>]"
    by (simp add: range_defs)
  with Suc diffRanges_loops_aux [of m] show ?thesis
    by (simp add: range_defs)
qed

subsection \<open>Degenerate ranges in the output\<close>

text \<open>
  C1 (every range of the output of \<^verbatim>\<open>diffRanges\<close> has \<open>from < to\<close>) does not hold
  of the code. The branch that splits a range appends the left remainder without
  the emptiness test of the sibling branch: a range that starts where the
  overlapping range starts leaves the empty range \<^verbatim>\<open>{from: 0, to: 0}\<close> behind.
\<close>

theorem diffRanges_split_keeps_empty_remainder:
  "diffRanges (Suc (Suc n)) [\<lparr>from = 0, to = 10\<rparr>] [\<lparr>from = 0, to = 5\<rparr>]
     = Some [\<lparr>from = 0, to = 0\<rparr>, \<lparr>from = 6, to = 10\<rparr>]"
  by (simp add: range_defs)

text \<open>
  C6 (\<^verbatim>\<open>diffRanges(R, R)\<close> is empty) does not hold of the code: where the merged
  list still holds overlapping ranges, the second of them meets the first one
  before it meets itself, and inverted remainders come out.
\<close>

theorem diffRanges_self_not_empty:
  "diffRanges (Suc (Suc n))
     [\<lparr>from = 0, to = 2\<rparr>, \<lparr>from = 5, to = 7\<rparr>, \<lparr>from = 1, to = 6\<rparr>]
     [\<lparr>from = 0, to = 2\<rparr>, \<lparr>from = 5, to = 7\<rparr>, \<lparr>from = 1, to = 6\<rparr>]
   = Some [\<lparr>from = 5, to = 0\<rparr>, \<lparr>from = 7, to = 0\<rparr>]"
  by (simp add: range_defs)

text \<open>
  Where the merged list holds no overlapping ranges, each of its ranges meets
  itself first and is dropped whole: the diff of a list with itself is empty then.
\<close>

lemma findOverlap_self:
  assumes "sorted_wrt (\<lambda>l r. \<not> overlapsRange r l) M" "r \<in> set M"
  shows "\<exists>i. findOverlappingRangeIndex r M = Some i \<and> M ! i = r"
proof -
  from assms(2) obtain j where j: "j < length M" "M ! j = r"
    by (auto simp: in_set_conv_nth)
  from assms(2) have "findOverlappingRangeIndex r M \<noteq> None"
    using overlapsRange_refl by (auto simp: findOverlap_None)
  then obtain i where i: "findOverlappingRangeIndex r M = Some i" by auto
  from findOverlap_Some [OF i] have ov: "i < length M" "overlapsRange r (M ! i)"
    by simp_all
  have "\<not> j < i"
    using findIndex_least [of "overlapsRange r" M i j] i j overlapsRange_refl
    by (auto simp: findOverlappingRangeIndex_def)
  moreover have "\<not> i < j"
  proof
    assume "i < j"
    with assms(1) j(1) have "\<not> overlapsRange (M ! j) (M ! i)"
      by (simp add: sorted_wrt_iff_nth_less)
    with ov(2) j(2) show False by simp
  qed
  ultimately have "i = j" by simp
  with i j show ?thesis by simp
qed

lemma foldl_drop_covered:
  assumes "\<forall>r\<in>set rs. \<exists>i. findOverlappingRangeIndex r S = Some i \<and> S ! i = r"
  shows "foldl (\<lambda>acc_opt rng. case acc_opt of None \<Rightarrow> None
            | Some acc \<Rightarrow> (case findOverlappingRangeIndex rng S of
                 None \<Rightarrow> Some (acc @ [rng])
               | Some overlap \<Rightarrow>
                   if to (S ! overlap) \<ge> to rng
                   then (if from \<lparr>from = from rng, to = from (S ! overlap)\<rparr>
                            = to \<lparr>from = from rng, to = from (S ! overlap)\<rparr>
                         then Some acc
                         else Some (acc @ [\<lparr>from = from rng, to = from (S ! overlap)\<rparr>]))
                   else g acc rng overlap))
           (Some acc0) rs = Some acc0"
  using assms by (induction rs arbitrary: acc0) auto

lemma diffRanges_self_apart:
  assumes "sorted_wrt (\<lambda>l r. \<not> overlapsRange r l) (mergeRanges R)"
  shows "diffRanges (Suc n) R R = Some []"
proof -
  have "\<forall>r\<in>set (mergeRanges R).
          \<exists>i. findOverlappingRangeIndex r (mergeRanges R) = Some i \<and> mergeRanges R ! i = r"
    using findOverlap_self [OF assms] by blast
  then show ?thesis
    unfolding diffRanges.simps Let_def by (rule foldl_drop_covered)
qed

subsection \<open>Lists that do not meet\<close>

text \<open>
  Merging an incoming range into an accumulated one cannot create an overlap with
  a range that neither of the two met before. This is arithmetic on the four
  bounds and needs no assumption on their order.
\<close>

lemma merge_keeps_apart_left:
  "\<not> overlapsRange a1 b \<Longrightarrow> \<not> overlapsRange a2 b \<Longrightarrow> overlapsRange a2 a1
     \<Longrightarrow> \<not> overlapsRange (mergeRange a2 a1) b"
  unfolding overlapsRange_def mergeRange_def by (simp; linarith)

lemma merge_keeps_apart_right:
  "\<not> overlapsRange a b1 \<Longrightarrow> \<not> overlapsRange a b2 \<Longrightarrow> overlapsRange b2 b1
     \<Longrightarrow> \<not> overlapsRange a (mergeRange b2 b1)"
  unfolding overlapsRange_def mergeRange_def by (simp; linarith)

lemma foldl_mergeStep_apart_left:
  assumes "\<forall>m\<in>set acc. \<not> overlapsRange m b" "\<forall>a\<in>set A. \<not> overlapsRange a b"
  shows "\<forall>m\<in>set (foldl mergeStep acc A). \<not> overlapsRange m b"
  using assms
proof (induction A arbitrary: acc)
  case Nil
  then show ?case by simp
next
  case (Cons a A)
  have "\<forall>m\<in>set (mergeStep acc a). \<not> overlapsRange m b"
  proof
    fix m assume "m \<in> set (mergeStep acc a)"
    then consider "m \<in> set acc" | "m = a"
      | l where "l \<in> set acc" "overlapsRange a l" "m = mergeRange a l"
      using mergeStep_cases by blast
    then show "\<not> overlapsRange m b"
    proof cases
      case 1 with Cons.prems show ?thesis by blast
    next
      case 2 with Cons.prems show ?thesis by simp
    next
      case 3 with Cons.prems show ?thesis
        by (simp add: merge_keeps_apart_left)
    qed
  qed
  with Cons show ?case by simp
qed

lemma foldl_mergeStep_apart_right:
  assumes "\<forall>m\<in>set acc. \<not> overlapsRange a m" "\<forall>b\<in>set B. \<not> overlapsRange a b"
  shows "\<forall>m\<in>set (foldl mergeStep acc B). \<not> overlapsRange a m"
  using assms
proof (induction B arbitrary: acc)
  case Nil
  then show ?case by simp
next
  case (Cons b B)
  have "\<forall>m\<in>set (mergeStep acc b). \<not> overlapsRange a m"
  proof
    fix m assume "m \<in> set (mergeStep acc b)"
    then consider "m \<in> set acc" | "m = b"
      | l where "l \<in> set acc" "overlapsRange b l" "m = mergeRange b l"
      using mergeStep_cases by blast
    then show "\<not> overlapsRange a m"
    proof cases
      case 1 with Cons.prems show ?thesis by blast
    next
      case 2 with Cons.prems show ?thesis by simp
    next
      case 3 with Cons.prems show ?thesis
        by (simp add: merge_keeps_apart_right)
    qed
  qed
  with Cons show ?case by simp
qed

lemma mergeRanges_apart:
  assumes "\<forall>a\<in>set A. \<forall>b\<in>set B. \<not> overlapsRange a b"
  shows "\<forall>a\<in>set (mergeRanges A). \<forall>b\<in>set (mergeRanges B). \<not> overlapsRange a b"
proof
  fix a assume a: "a \<in> set (mergeRanges A)"
  have "\<forall>b\<in>set B. \<not> overlapsRange a b"
  proof
    fix b assume "b \<in> set B"
    with assms have "\<forall>x\<in>set A. \<not> overlapsRange x b" by blast
    then have "\<forall>m\<in>set (foldl mergeStep [] A). \<not> overlapsRange m b"
      by (intro foldl_mergeStep_apart_left) simp_all
    with a show "\<not> overlapsRange a b" by (simp add: mergeRanges_def)
  qed
  then have "\<forall>m\<in>set (foldl mergeStep [] B). \<not> overlapsRange a m"
    by (intro foldl_mergeStep_apart_right) simp_all
  then show "\<forall>b\<in>set (mergeRanges B). \<not> overlapsRange a b"
    by (simp add: mergeRanges_def)
qed

text \<open>
  The reducer of \<^verbatim>\<open>diffRanges\<close> appends every range that meets nothing of the
  second list, whatever the other branch (\<open>g\<close>) does.
\<close>

lemma foldl_keep_whole:
  assumes "\<forall>r\<in>set rs. findOverlappingRangeIndex r S = None"
  shows "foldl (\<lambda>acc_opt rng. case acc_opt of None \<Rightarrow> None
            | Some acc \<Rightarrow> (case findOverlappingRangeIndex rng S of
                 None \<Rightarrow> Some (acc @ [rng]) | Some overlap \<Rightarrow> g acc rng overlap))
           (Some acc0) rs = Some (acc0 @ rs)"
  using assms by (induction rs arbitrary: acc0) simp_all

text \<open>
  C7: for all range lists \<open>A\<close> and \<open>B\<close> such that no range of \<open>A\<close> overlaps a
  range of \<open>B\<close> (as \<^verbatim>\<open>findOverlappingRangeIndex\<close> decides it),
  \<^verbatim>\<open>diffRanges(A, B)\<close> returns \<^verbatim>\<open>mergeRanges(A)\<close>, and it does so without
  calling itself: one unit of fuel is enough.
\<close>

theorem diffRanges_disjoint:
  assumes "\<forall>a\<in>set A. findOverlappingRangeIndex a B = None"
  shows "diffRanges (Suc n) A B = Some (mergeRanges A)"
proof -
  from assms have "\<forall>a\<in>set A. \<forall>b\<in>set B. \<not> overlapsRange a b"
    by (simp add: findOverlap_None)
  then have "\<forall>r\<in>set (mergeRanges A). findOverlappingRangeIndex r (mergeRanges B) = None"
    using mergeRanges_apart by (simp add: findOverlap_None)
  then show ?thesis
    using foldl_keep_whole [of "mergeRanges A" "mergeRanges B" _ "[]"]
    by (simp add: Let_def)
qed

theorem diffRanges_disjoint_witness:
  "findOverlappingRangeIndex \<lparr>from = 0, to = 2\<rparr> [\<lparr>from = 5, to = 6\<rparr>] = None \<and>
   findOverlappingRangeIndex \<lparr>from = 1, to = 3\<rparr> [\<lparr>from = 5, to = 6\<rparr>] = None \<and>
   diffRanges (Suc 0) [\<lparr>from = 0, to = 2\<rparr>, \<lparr>from = 1, to = 3\<rparr>] [\<lparr>from = 5, to = 6\<rparr>]
     = Some [\<lparr>from = 0, to = 3\<rparr>]"
proof -
  have h: "\<forall>a\<in>set [\<lparr>from = 0, to = 2\<rparr>, \<lparr>from = 1, to = 3\<rparr>].
              findOverlappingRangeIndex a [\<lparr>from = 5, to = 6\<rparr>] = None"
    by (simp add: range_defs)
  have m: "mergeRanges [\<lparr>from = 0, to = 2\<rparr>, \<lparr>from = 1, to = 3\<rparr>] = [\<lparr>from = 0, to = 3\<rparr>]"
    by (simp add: range_defs)
  from diffRanges_disjoint [OF h, of 0] h m show ?thesis by simp
qed

section \<open>Projecting validation inputs\<close>

text \<open>
  With both indices inside the clipping range of \<^verbatim>\<open>slice\<close>, the slice is no
  longer than the distance between them.
\<close>

lemma length_slice_le:
  assumes "0 \<le> a" "0 \<le> b"
  shows "int (length (slice s a b)) \<le> max (b - a) 0"
proof -
  define len where "len = int (length s)"
  define from_k where "from_k = min a len"
  define to_k where "to_k = min b len"
  have "slice s a b = take (nat (max (to_k - from_k) 0)) (drop (nat from_k) s)"
    using assms by (simp add: slice_def Let_def len_def from_k_def to_k_def)
  then have "int (length (slice s a b)) \<le> max (to_k - from_k) 0"
    by simp
  also have "\<dots> \<le> max (b - a) 0"
    by (simp add: from_k_def to_k_def min_def max_def)
  finally show ?thesis .
qed

lemma valRangeStep_cases:
  assumes "r \<in> set (valRangeStep rng acc vi)"
  shows "r \<in> set acc \<or>
    (from r = from rng \<and> to r = to rng \<and> str r \<noteq> [] \<and>
     (from rng \<le> to rng \<longrightarrow> int (length (str r)) \<le> to rng - from rng + 1))"
proof (cases "from rng \<ge> from vi \<and> from rng \<le> from vi + int (length (str vi))")
  case False
  with assms show ?thesis by (simp add: valRangeStep_def)
next
  case True
  define a where "a = (if from rng - from vi > 0 then from rng - from vi - 1 else 0)"
  define b where "b = from rng - from vi + (to rng - from rng)"
  show ?thesis
  proof (cases "slice (str vi) a b = []")
    case empty: True
    with True have "valRangeStep rng acc vi = acc"
      by (simp add: valRangeStep_def Let_def a_def b_def)
    with assms show ?thesis by simp
  next
    case False
    with True have "valRangeStep rng acc vi =
        acc @ [vi\<lparr>from := from rng, to := to rng, str := slice (str vi) a b\<rparr>]"
      by (simp add: valRangeStep_def Let_def a_def b_def)
    with assms
    have "r \<in> set acc \<or> r = vi\<lparr>from := from rng, to := to rng, str := slice (str vi) a b\<rparr>"
      by auto
    moreover have "from rng \<le> to rng \<Longrightarrow>
        int (length (slice (str vi) a b)) \<le> to rng - from rng + 1"
    proof -
      assume le: "from rng \<le> to rng"
      with True have "0 \<le> a" "0 \<le> b" by (simp_all add: a_def b_def)
      then have "int (length (slice (str vi) a b)) \<le> max (b - a) 0"
        by (rule length_slice_le)
      also from le True have "\<dots> \<le> to rng - from rng + 1"
        by (simp add: a_def b_def)
      finally show ?thesis .
    qed
    ultimately show ?thesis using False by auto
  qed
qed

lemma getValRangesFromRange_emits:
  assumes "r \<in> set (foldl (valRangeStep rng) acc valRanges)"
  shows "r \<in> set acc \<or>
    (from r = from rng \<and> to r = to rng \<and> str r \<noteq> [] \<and>
     (from rng \<le> to rng \<longrightarrow> int (length (str r)) \<le> to rng - from rng + 1))"
  using assms
proof (induction valRanges arbitrary: acc)
  case Nil
  then show ?case by simp
next
  case (Cons vi valRanges)
  from Cons.IH [of "valRangeStep rng acc vi"] Cons.prems
  consider "r \<in> set (valRangeStep rng acc vi)"
    | "from r = from rng \<and> to r = to rng \<and> str r \<noteq> [] \<and>
       (from rng \<le> to rng \<longrightarrow> int (length (str r)) \<le> to rng - from rng + 1)"
    by auto
  then show ?case
  proof cases
    case 1
    then show ?thesis using valRangeStep_cases by blast
  next
    case 2
    then show ?thesis by simp
  qed
qed

text \<open>
  The ranges of validation inputs are ordered, so the diff of two lists of
  validation inputs always returns.
\<close>

lemma diffValidationInputs_returns:
  "\<exists>n out. diffValidationInputs n firstValInputs secondValInputs = Some out"
proof -
  have "\<forall>b\<in>set (map validationInputToRange secondValInputs). from b \<le> to b"
    by (simp add: validationInputToRange_def)
  from diffRanges_returns [OF this, of "map validationInputToRange firstValInputs"]
  show ?thesis by (auto simp: diffValidationInputs_def)
qed

text \<open>The example of the specification, and a projection that starts inside a run.\<close>

lemma example_diffValidationInputs:
  "diffValidationInputs 2 [\<lparr>from = 0, to = 10, str = ''helloworld''\<rparr>]
      [\<lparr>from = 3, to = 6, str = ''lo''\<rparr>]
     = Some [\<lparr>from = 0, to = 3, str = ''hel''\<rparr>, \<lparr>from = 6, to = 10, str = ''world''\<rparr>]"
  by code_simp

lemma example_projection:
  "getValRangesFromRange \<lparr>from = 3, to = 5\<rparr> [\<lparr>from = 0, to = 10, str = ''helloworld''\<rparr>]
     = [\<lparr>from = 3, to = 5, str = ''llo''\<rparr>]"
  by code_simp

text \<open>
  C4 (every record of the projector has \<open>to - from = length str\<close>) does not hold
  of the code. On the inputs of the specification's own example the second
  record spans four positions and carries five characters: the slice starts one
  character before the range.
\<close>

theorem diffValidationInputs_length_mismatch:
  "diffValidationInputs 2 [\<lparr>from = 0, to = 10, str = ''helloworld''\<rparr>]
      [\<lparr>from = 3, to = 6, str = ''lo''\<rparr>]
     = Some [\<lparr>from = 0, to = 3, str = ''hel''\<rparr>, \<lparr>from = 6, to = 10, str = ''world''\<rparr>] \<and>
   to \<lparr>from = 6, to = 10, str = ''world''\<rparr> - from \<lparr>from = 6, to = 10, str = ''world''\<rparr>
     \<noteq> int (length (str \<lparr>from = 6, to = 10, str = ''world''\<rparr>))"
  using example_diffValidationInputs by simp

text \<open>
  C4, as amended: every record emitted by \<^verbatim>\<open>getValRangesFromRange\<close> carries the
  bounds of the range it was projected for and a non-empty \<open>str\<close>, and when that
  range has \<open>from \<le> to\<close> the text is at most one character longer than the span,
  \<open>length str \<le> to - from + 1\<close>. \<^verbatim>\<open>diffValidationInputs\<close> returns on every pair
  of inputs, and the same holds of every record in its output.
\<close>

theorem projected_length_bound:
  "(r \<in> set (getValRangesFromRange rng valRanges) \<longrightarrow>
      from r = from rng \<and> to r = to rng \<and> str r \<noteq> [] \<and>
      (from rng \<le> to rng \<longrightarrow> int (length (str r)) \<le> to r - from r + 1)) \<and>
   (\<exists>k res. diffValidationInputs k firstValInputs secondValInputs = Some res) \<and>
   (diffValidationInputs n firstValInputs secondValInputs = Some out \<longrightarrow> r' \<in> set out \<longrightarrow>
      str r' \<noteq> [] \<and>
      (from r' \<le> to r' \<longrightarrow> int (length (str r')) \<le> to r' - from r' + 1))"
proof (intro conjI impI)
  assume "r \<in> set (getValRangesFromRange rng valRanges)"
  then have *: "from r = from rng \<and> to r = to rng \<and> str r \<noteq> [] \<and>
     (from rng \<le> to rng \<longrightarrow> int (length (str r)) \<le> to rng - from rng + 1)"
    using getValRangesFromRange_emits [of r rng "[]" valRanges]
    by (simp add: getValRangesFromRange_def)
  then show "from r = from rng" "to r = to rng" "str r \<noteq> []" by simp_all
  assume "from rng \<le> to rng"
  with * show "int (length (str r)) \<le> to r - from r + 1" by simp
next
  show "\<exists>k res. diffValidationInputs k firstValInputs secondValInputs = Some res"
    by (rule diffValidationInputs_returns)
next
  assume out: "diffValidationInputs n firstValInputs secondValInputs = Some out"
    and r': "r' \<in> set out"
  from out obtain ranges where
    "out = concat (map (\<lambda>rng. getValRangesFromRange rng firstValInputs) ranges)"
    by (auto simp: diffValidationInputs_def)
  with r' obtain rng' where "r' \<in> set (getValRangesFromRange rng' firstValInputs)"
    by auto
  then have *: "from r' = from rng' \<and> to r' = to rng' \<and> str r' \<noteq> [] \<and>
     (from rng' \<le> to rng' \<longrightarrow> int (length (str r')) \<le> to rng' - from rng' + 1)"
    using getValRangesFromRange_emits [of r' rng' "[]" firstValInputs]
    by (simp add: getValRangesFromRange_def)
  then show "str r' \<noteq> []" by simp
  assume "from r' \<le> to r'"
  with * show "int (length (str r')) \<le> to r' - from r' + 1" by simp
qed

theorem projected_length_bound_witness:
  "\<lparr>from = 3, to = 5, str = ''llo''\<rparr>
     \<in> set (getValRangesFromRange \<lparr>from = 3, to = 5\<rparr>
              [\<lparr>from = 0, to = 10, str = ''helloworld''\<rparr>]) \<and>
   (3::int) \<le> 5 \<and> int (length ''llo'') \<le> 5 - 3 + 1 \<and>
   diffValidationInputs 2 [\<lparr>from = 0, to = 10, str = ''helloworld''\<rparr>]
      [\<lparr>from = 3, to = 6, str = ''lo''\<rparr>]
     = Some [\<lparr>from = 0, to = 3, str = ''hel''\<rparr>, \<lparr>from = 6, to = 10, str = ''world''\<rparr>] \<and>
   (6::int) \<le> 10 \<and> int (length ''world'') \<le> 10 - 6 + 1"
  using projected_length_bound
    [where r = "\<lparr>from = 3, to = 5, str = ''llo''\<rparr>" and rng = "\<lparr>from = 3, to = 5\<rparr>"
       and valRanges = "[\<lparr>from = 0, to = 10, str = ''helloworld''\<rparr>]" and n = 2
       and firstValInputs = "[\<lparr>from = 0, to = 10, str = ''helloworld''\<rparr>]"
       and secondValInputs = "[\<lparr>from = 3, to = 6, str = ''lo''\<rparr>]"
       and out = "[\<lparr>from = 0, to = 3, str = ''hel''\<rparr>, \<lparr>from = 6, to = 10, str = ''world''\<rparr>]"
       and r' = "\<lparr>from = 6, to = 10, str = ''world''\<rparr>"]
    example_diffValidationInputs example_projection
  by simp

section \<open>Mapping through transactions\<close>

text \<open>
  C5 (\<^verbatim>\<open>mapRangeThroughTransactions\<close> leaves the \<open>from\<close> and \<open>to\<close> of every input
  range object as they were) does not hold of the code: the range object itself
  is the target of \<^verbatim>\<open>Object.assign\<close>. With two transactions that shift
  positions by 3 and by 1, the object at address 0 ends four positions further,
  whatever it held.
\<close>

theorem mapRangeThroughTransactions_writes_input:
  "mapRangeThroughTransactions [0] 1
      [\<lparr>time = 1, mapping = (+) 3\<rparr>, \<lparr>time = 2, mapping = (+) 1\<rparr>] h
     = ([0], h(0 := (h 0)\<lparr>from := from (h 0) + 4, to := to (h 0) + 4\<rparr>))"
  by (simp add: mapRangeThroughTransactions_def mapRangeCallback_def add.commute)

text \<open>
  C8 (a time that matches no transaction omits every range) does not hold of the
  code as stated: the test for a history of one transaction comes first, and
  then the range is returned although no transaction has the given time.
\<close>

theorem single_transaction_unmatched_time_kept:
  "time \<lparr>time = 5, mapping = id\<rparr> \<noteq> 7 \<and>
   mapRangeThroughTransactions [0] 7 [\<lparr>time = 5, mapping = id\<rparr>] sampleStore
     = ([0], sampleStore)"
  by (simp add: mapRangeThroughTransactions_def mapRangeCallback_def)

text \<open>
  C8, as amended: if no transaction has the given time and the history does not
  consist of exactly one transaction, every range is omitted and the store is
  left as it was; and in every case the length of the output is the length of
  the input minus the number of ranges for which the callback gave
  \<^verbatim>\<open>undefined\<close>.
\<close>

theorem unmatched_time_omitted:
  "(length trs \<noteq> 1 \<and> (\<forall>tr\<in>set trs. time tr \<noteq> time_v) \<longrightarrow>
      mapRangeThroughTransactions ranges time_v trs h = ([], h)) \<and>
   length (fst (mapRangeThroughTransactions ranges time_v trs h)) =
     length ranges -
     length (filter (\<lambda>x. x = None) (fst (mapWithStore (mapRangeCallback time_v trs) h ranges)))"
proof (intro conjI impI)
  assume a: "length trs \<noteq> 1 \<and> (\<forall>tr\<in>set trs. time tr \<noteq> time_v)"
  then have "findIndex (\<lambda>tr. time tr = time_v) trs = None"
    by (simp add: findIndex_None)
  with a show "mapRangeThroughTransactions ranges time_v trs h = ([], h)"
    by (simp add: mapRangeThroughTransactions_def mapRangeCallback_def
      mapWithStore_const [where g = "\<lambda>_. None"] compact_None)
next
  show "length (fst (mapRangeThroughTransactions ranges time_v trs h)) =
     length ranges -
     length (filter (\<lambda>x. x = None) (fst (mapWithStore (mapRangeCallback time_v trs) h ranges)))"
    using length_mapWithStore [of "mapRangeCallback time_v trs" h ranges]
    by (cases "mapWithStore (mapRangeCallback time_v trs) h ranges")
       (simp add: mapRangeThroughTransactions_def length_compact)
qed

theorem unmatched_time_omitted_witness:
  "length [\<lparr>time = 1, mapping = (+) 3\<rparr>, \<lparr>time = 2, mapping = (+) 1\<rparr>] \<noteq> 1 \<and>
   time \<lparr>time = 1, mapping = (+) 3\<rparr> \<noteq> 7 \<and> time \<lparr>time = 2, mapping = (+) 1\<rparr> \<noteq> 7 \<and>
   mapRangeThroughTransactions [0, 1] 7
      [\<lparr>time = 1, mapping = (+) 3\<rparr>, \<lparr>time = 2, mapping = (+) 1\<rparr>] sampleStore
     = ([], sampleStore) \<and>
   length (fst (mapRangeThroughTransactions [0, 1] 7
      [\<lparr>time = 1, mapping = (+) 3\<rparr>, \<lparr>time = 2, mapping = (+) 1\<rparr>] sampleStore)) = 2 - 2"
  using unmatched_time_omitted
    [of "[\<lparr>time = 1, mapping = (+) 3\<rparr>, \<lparr>time = 2, mapping = (+) 1\<rparr>]" 7 "[0, 1]" sampleStore]
  by (simp add: mapRangeCallback_def)

text \<open>
  C9: if the history holds exactly one transaction, \<^verbatim>\<open>mapRangeThroughTransactions\<close>
  returns all ranges, in order and unchanged, for every time, matching or not.
\<close>

theorem single_transaction_unchanged:
  "length trs = 1 \<Longrightarrow> mapRangeThroughTransactions ranges time_v trs h = (ranges, h)"
  by (simp add: mapRangeThroughTransactions_def mapRangeCallback_def
      mapWithStore_const [where g = Some] compact_Some)

theorem single_transaction_unchanged_witness:
  "length [\<lparr>time = 5, mapping = (+) 3\<rparr>] = 1 \<and>
   mapRangeThroughTransactions [0, 1] 5 [\<lparr>time = 5, mapping = (+) 3\<rparr>] sampleStore
     = ([0, 1], sampleStore)"
  using single_transaction_unchanged [of "[\<lparr>time = 5, mapping = (+) 3\<rparr>]" "[0, 1]" 5 sampleStore]
  by simp

text \<open>
  C10: with an empty history \<^verbatim>\<open>mapRangeThroughTransactions\<close> returns the empty
  list for every list of ranges and every time, and leaves the store as it was.
\<close>

theorem empty_log_drops_all:
  "mapRangeThroughTransactions ranges time_v [] h = ([], h)"
  by (simp add: mapRangeThroughTransactions_def mapRangeCallback_def
      mapWithStore_const [where g = "\<lambda>_. None"] compact_None)

end
